theory Spec2Isabelle
  imports Complex_Main
begin

section \<open>Arrays\<close>

text \<open>
  The composed Clifford-steerable kernel (\<^verbatim>\<open>modules/conv/ckernel.py\<close>) and the scalar
  shell (\<^verbatim>\<open>modules/conv/shell.py\<close>) are programs over \<^verbatim>\<open>jax.numpy\<close> arrays. An array is
  modelled as its shape together with its entries in row-major (C) order, which is the
  order \<^verbatim>\<open>reshape\<close> preserves. Entries of numeric arrays are real numbers and arithmetic
  on them is exact; the underflow of the \<^verbatim>\<open>float32\<close> exponential is modelled separately, by
  \<open>exp_f32\<close>, and no theorem speaks of an entry that the code divides by zero. Every
  exception the Python raises is a value \<open>Inl e\<close>.
\<close>

datatype error =
    UnpackError
  | ZeroDivisionError
  | ReshapeError
  | TransposeError
  | ConvShapeError
  | VmapError
  | BroadcastError
  | RepeatError
  | ParamShapeError
  | RankError

record 'a tensor =
  shape :: "nat list"
  data :: "'a list"

definition ebind :: "error + 'a \<Rightarrow> ('a \<Rightarrow> error + 'b) \<Rightarrow> error + 'b" where
  "ebind m f = (case m of Inl e \<Rightarrow> Inl e | Inr x \<Rightarrow> f x)"

definition tsize :: "'a tensor \<Rightarrow> nat" where
  "tsize t = prod_list (shape t)"

definition wf_tensor :: "'a tensor \<Rightarrow> bool" where
  "wf_tensor t = (length (data t) = prod_list (shape t))"

text \<open>Row-major position of a multi-index, and the multi-index of a position.\<close>

fun ravel :: "nat list \<Rightarrow> nat list \<Rightarrow> nat" where
  "ravel (n # s) (i # idx) = i * prod_list s + ravel s idx"
| "ravel _ _ = 0"

fun unravel :: "nat list \<Rightarrow> nat \<Rightarrow> nat list" where
  "unravel [] k = []"
| "unravel (n # s) k = (k div prod_list s) # unravel s (k mod prod_list s)"

definition valid_idx :: "nat list \<Rightarrow> nat list \<Rightarrow> bool" where
  "valid_idx s idx = list_all2 (<) idx s"

definition get :: "'a tensor \<Rightarrow> nat list \<Rightarrow> 'a" where
  "get t idx = data t ! ravel (shape t) idx"

definition tabulate :: "nat list \<Rightarrow> (nat list \<Rightarrow> 'a) \<Rightarrow> 'a tensor" where
  "tabulate s f = \<lparr>shape = s, data = map (\<lambda>k. f (unravel s k)) [0..<prod_list s]\<rparr>"

definition zeros :: "nat list \<Rightarrow> real tensor" where
  "zeros s = tabulate s (\<lambda>_. 0)"

subsection \<open>\<^verbatim>\<open>jax.numpy\<close> operations used by the source\<close>

text \<open>\<^verbatim>\<open>tensor.reshape(*new)\<close>: the entries stay in place; it raises unless the sizes agree.\<close>

definition reshape :: "'a tensor \<Rightarrow> nat list \<Rightarrow> error + 'a tensor" where
  "reshape t new =
     (if prod_list new = tsize t then Inr (t\<lparr>shape := new\<rparr>) else Inl ReshapeError)"

text \<open>\<^verbatim>\<open>tensor.reshape(a, -1, c)\<close>: the middle axis is inferred from the size.\<close>

definition reshape_infer :: "'a tensor \<Rightarrow> nat \<Rightarrow> nat \<Rightarrow> error + 'a tensor" where
  "reshape_infer t a c =
     (if a * c = 0 \<or> tsize t mod (a * c) \<noteq> 0 then Inl ReshapeError
      else reshape t [a, tsize t div (a * c), c])"

fun index_of :: "nat \<Rightarrow> nat list \<Rightarrow> nat" where
  "index_of a [] = 0"
| "index_of a (x # xs) = (if x = a then 0 else Suc (index_of a xs))"

text \<open>
  \<^verbatim>\<open>tensor.transpose(*axes)\<close>: axis \<open>i\<close> of the result is axis \<open>axes[i]\<close> of the argument;
  it raises unless \<open>axes\<close> is a permutation of the argument's axes.
\<close>

definition transpose_t :: "nat list \<Rightarrow> 'a tensor \<Rightarrow> error + 'a tensor" where
  "transpose_t axes t =
     (if length axes \<noteq> length (shape t) \<or> sort axes \<noteq> [0..<length axes]
      then Inl TransposeError
      else Inr (tabulate (map (\<lambda>a. shape t ! a) axes)
                  (\<lambda>idx. get t (map (\<lambda>j. idx ! index_of j axes) [0..<length axes]))))"

text \<open>An elementwise operation with a Python scalar (\<^verbatim>\<open>x + 0.4\<close>, \<^verbatim>\<open>jnp.exp(x)\<close>).\<close>

definition tmap :: "('a \<Rightarrow> 'b) \<Rightarrow> 'a tensor \<Rightarrow> 'b tensor" where
  "tmap f t = tabulate (shape t) (\<lambda>idx. f (get t idx))"

text \<open>
  Broadcasting of a binary elementwise operation: shapes are aligned at their last axis,
  and two aligned axes must agree unless one of them has length 1. The recursion runs
  over the reversed shapes.
\<close>

fun bshape_rev :: "nat list \<Rightarrow> nat list \<Rightarrow> error + nat list" where
  "bshape_rev [] ys = Inr ys"
| "bshape_rev (x # xs) [] = Inr (x # xs)"
| "bshape_rev (x # xs) (y # ys) =
     (if x = y \<or> y = 1 then ebind (bshape_rev xs ys) (\<lambda>zs. Inr (x # zs))
      else if x = 1 then ebind (bshape_rev xs ys) (\<lambda>zs. Inr (y # zs))
      else Inl BroadcastError)"

definition bshape :: "nat list \<Rightarrow> nat list \<Rightarrow> error + nat list" where
  "bshape s1 s2 = ebind (bshape_rev (rev s1) (rev s2)) (\<lambda>zs. Inr (rev zs))"

text \<open>
  The entry of an operand that the entry \<open>idx\<close> of the result reads: along an axis of
  length 1 it is entry 0, and leading axes the operand does not have are dropped.
\<close>

definition bsel :: "nat \<Rightarrow> nat \<Rightarrow> nat" where
  "bsel n i = (if n = 1 then 0 else i)"

definition bidx :: "nat list \<Rightarrow> nat list \<Rightarrow> nat list" where
  "bidx s idx = rev (map2 bsel (rev s) (rev idx))"

definition bc :: "('a \<Rightarrow> 'b \<Rightarrow> 'c) \<Rightarrow> 'a tensor \<Rightarrow> 'b tensor \<Rightarrow> error + 'c tensor" where
  "bc f a b =
     ebind (bshape (shape a) (shape b))
       (\<lambda>s. Inr (tabulate s (\<lambda>idx. f (get a (bidx (shape a) idx)) (get b (bidx (shape b) idx)))))"

text \<open>
  \<^verbatim>\<open>jnp.repeat(t, repeats, axis)\<close>: entry \<open>g\<close> of the axis is repeated \<open>repeats[g]\<close> times,
  in order. \<open>rep_index repeats\<close> lists, for every position of the expanded axis, the
  position of the original axis it copies.
\<close>

definition rep_index :: "nat list \<Rightarrow> nat list" where
  "rep_index reps = concat (map2 replicate reps [0..<length reps])"

definition jnp_repeat :: "'a tensor \<Rightarrow> nat list \<Rightarrow> int \<Rightarrow> error + 'a tensor" where
  "jnp_repeat t reps axis =
     (let r = int (length (shape t)) in
      if axis < - r \<or> r \<le> axis then Inl RankError
      else
        let ax = nat (if axis < 0 then axis + r else axis);
            n = shape t ! ax;
            reps' = (if length reps = 1 then replicate n (hd reps) else reps)
        in if length reps' \<noteq> n then Inl RepeatError
           else Inr (tabulate ((shape t)[ax := sum_list reps'])
                       (\<lambda>idx. get t (idx[ax := rep_index reps' ! (idx ! ax)]))))"

subsection \<open>\<^verbatim>\<open>jax.lax.conv\<close> and \<^verbatim>\<open>jax.vmap\<close>\<close>

text \<open>
  \<^verbatim>\<open>jax.lax.conv(lhs, rhs, window_strides=(1,1), padding="SAME")\<close>: a cross-correlation of
  the batch \<open>lhs\<close> (layout N, C, H, W) with the filters \<open>rhs\<close> (layout O, I, kH, kW). It
  needs exactly two spatial axes and equal channel counts C and I. With "SAME" padding
  and stride 1 each spatial axis is padded by \<open>max (k - 1) 0\<close> zeros in total, the smaller
  half in front, and the output axis has length \<open>H + pad - k + 1\<close>.
\<close>

definition padded :: "real tensor \<Rightarrow> nat \<Rightarrow> nat \<Rightarrow> int \<Rightarrow> int \<Rightarrow> real" where
  "padded t n c y x =
     (if 0 \<le> y \<and> y < int (shape t ! 2) \<and> 0 \<le> x \<and> x < int (shape t ! 3)
      then get t [n, c, nat y, nat x] else 0)"

definition lax_conv :: "real tensor \<Rightarrow> real tensor \<Rightarrow> error + real tensor" where
  "lax_conv lhs rhs =
     (if length (shape lhs) \<noteq> 4 \<or> length (shape rhs) \<noteq> 4 then Inl ConvShapeError
      else
        let N = shape lhs ! 0; C = shape lhs ! 1; H = shape lhs ! 2; W = shape lhs ! 3;
            Oc = shape rhs ! 0; Ic = shape rhs ! 1; kH = shape rhs ! 2; kW = shape rhs ! 3;
            pad_h = kH - 1; pad_w = kW - 1
        in if C \<noteq> Ic then Inl ConvShapeError
           else Inr (tabulate [N, Oc, H + pad_h + 1 - kH, W + pad_w + 1 - kW]
                  (\<lambda>idx. sum_list (map (\<lambda>c. sum_list (map (\<lambda>i. sum_list (map (\<lambda>j.
                       padded lhs (idx ! 0) c
                         (int (idx ! 2) + int i - int (pad_h div 2))
                         (int (idx ! 3) + int j - int (pad_w div 2))
                       * get rhs [idx ! 1, c, i, j])
                     [0..<kW])) [0..<kH])) [0..<C]))))"

text \<open>
  \<^verbatim>\<open>jax.vmap(f, in_axes=(0, 0))(a, b)\<close>: \<open>f\<close> is applied to the slices of \<open>a\<close> and \<open>b\<close> along
  their first axes, which must have the same length, and the results are stacked. The
  function is traced once on the slice shapes, which fixes the shape of a result, also
  when the mapped axis is empty.
\<close>

definition slice0 :: "'a tensor \<Rightarrow> nat \<Rightarrow> 'a tensor" where
  "slice0 t i =
     \<lparr>shape = tl (shape t),
      data = take (prod_list (tl (shape t))) (drop (i * prod_list (tl (shape t))) (data t))\<rparr>"

fun sequence_e :: "(error + 'a) list \<Rightarrow> error + 'a list" where
  "sequence_e [] = Inr []"
| "sequence_e (m # ms) = ebind m (\<lambda>x. ebind (sequence_e ms) (\<lambda>xs. Inr (x # xs)))"

definition vmap2 ::
  "(real tensor \<Rightarrow> real tensor \<Rightarrow> error + real tensor) \<Rightarrow>
     real tensor \<Rightarrow> real tensor \<Rightarrow> error + real tensor" where
  "vmap2 f a b =
     (if shape a = [] \<or> shape b = [] \<or> hd (shape a) \<noteq> hd (shape b) then Inl VmapError
      else
        ebind (f (zeros (tl (shape a))) (zeros (tl (shape b)))) (\<lambda>r0.
        ebind (sequence_e (map (\<lambda>i. f (slice0 a i) (slice0 b i)) [0..<hd (shape a)])) (\<lambda>rs.
        Inr \<lparr>shape = hd (shape a) # shape r0, data = concat (map data rs)\<rparr>)))"

section \<open>The algebra\<close>

text \<open>
  The class \<^verbatim>\<open>CliffordAlgebra\<close> is not part of the sources; the kernel code reads the
  attributes below from it. \<open>q\<close> and \<open>embed_grade\<close> act on the last axis of an array:
  \<open>embed_grade alg v g\<close> lifts the coefficients \<open>v\<close> of grade \<open>g\<close> to a multivector and
  \<open>q alg\<close> is the quadratic form of a multivector.
\<close>

record algebra =
  dim_a :: nat
  n_blades :: nat
  n_subspaces :: nat
  subspaces :: "nat list"
  q :: "real list \<Rightarrow> real"
  embed_grade :: "real list \<Rightarrow> nat \<Rightarrow> real list"

text \<open>
  Modelled from the spec: the data model of the grade metadata, which the absent class
  establishes: there are \<open>2 ^ d\<close> blades, partitioned into \<open>n_subspaces\<close> grades with
  \<open>subspaces[g]\<close> blades each.
\<close>

definition algebra_inv :: "algebra \<Rightarrow> bool" where
  "algebra_inv alg =
     (n_blades alg = 2 ^ dim_a alg \<and> length (subspaces alg) = n_subspaces alg \<and>
      sum_list (subspaces alg) = n_blades alg)"

section \<open>\<^verbatim>\<open>modules/conv/ckernel.py\<close>\<close>

definition reshape_mv_tensor :: "algebra \<Rightarrow> 'a tensor \<Rightarrow> error + 'a tensor" where
  "reshape_mv_tensor alg t =
     (case shape t of
        A # B # dims \<Rightarrow>
          if n_blades alg = 0 then Inl ZeroDivisionError
          else
            let M = A div n_blades alg; N = B div n_blades alg
            in reshape t (M # n_blades alg # N # n_blades alg # dims)
      | _ \<Rightarrow> Inl UnpackError)"

definition reshape_back :: "algebra \<Rightarrow> 'a tensor \<Rightarrow> error + 'a tensor" where
  "reshape_back alg t =
     (case shape t of
        M # _ # N # _ # dims \<Rightarrow>
          let A = M * n_blades alg; B = N * n_blades alg
          in reshape t (A # B # dims)
      | _ \<Rightarrow> Inl UnpackError)"

definition conv_kernel_11 :: "real tensor \<Rightarrow> real tensor \<Rightarrow> error + real tensor" where
  "conv_kernel_11 k1 k2 = lax_conv k1 k2"

definition conv_kernel_14 :: "real tensor \<Rightarrow> real tensor \<Rightarrow> error + real tensor" where
  "conv_kernel_14 k1 k2 = vmap2 conv_kernel_11 k1 k2"

definition conv_kernel :: "algebra \<Rightarrow> real tensor \<Rightarrow> real tensor \<Rightarrow> error + real tensor" where
  "conv_kernel alg k1 k2 =
     ebind (reshape_mv_tensor alg k1) (\<lambda>r1.
     ebind (transpose_t [0, 2, 1, 3, 4, 5] r1) (\<lambda>k1'.
     ebind (reshape_mv_tensor alg k2) (\<lambda>r2.
     ebind (transpose_t [0, 2, 1, 3, 4, 5] r2) (\<lambda>k2'.
     ebind (vmap2 conv_kernel_14 k1' k2') (\<lambda>k.
     ebind (transpose_t [0, 2, 1, 3, 4, 5] k) (\<lambda>k'.
     reshape_back alg k'))))))"

text \<open>
  The module \<^verbatim>\<open>ComposedCliffordSteerableKernel\<close>. Its \<^verbatim>\<open>__call__\<close> builds two kernels with
  \<^verbatim>\<open>CliffordSteerableKernel\<close>, which is not part of the sources: the outcomes of these two
  calls are parameters here, in the order in which they are made.
\<close>

record kernel_params =
  algebra :: algebra
  c_in :: nat
  c_out :: nat
  kernel_size :: nat
  num_layers :: nat
  hidden_dim :: nat
  bias_dims :: "nat list"
  product_paths_sum :: nat

definition ComposedCliffordSteerableKernel_call ::
  "kernel_params \<Rightarrow> error + real tensor \<Rightarrow> error + real tensor \<Rightarrow> error + real tensor" where
  "ComposedCliffordSteerableKernel_call self steerable1 steerable2 =
     ebind steerable1 (\<lambda>k1.
     ebind steerable2 (\<lambda>k2.
     conv_kernel (algebra self) k1 k2))"

section \<open>\<^verbatim>\<open>modules/conv/shell.py\<close>\<close>

text \<open>
  \<^verbatim>\<open>algebra.q(algebra.embed_grade(v, 1))\<close>: the quadratic form of every vector along the
  last axis of \<open>v\<close>; the last axis of the result has length 1. \<open>vector_at v idx\<close> is the
  vector of \<open>v\<close> at the position \<open>idx\<close> of the leading axes (the last entry of \<open>idx\<close>
  indexes the axis of length 1 and is not read).
\<close>

definition vector_at :: "real tensor \<Rightarrow> nat list \<Rightarrow> real list" where
  "vector_at v idx = map (\<lambda>j. get v (butlast idx @ [j])) [0..<last (shape v)]"

definition q_embed :: "algebra \<Rightarrow> real tensor \<Rightarrow> error + real tensor" where
  "q_embed alg v =
     (if shape v = [] then Inl RankError
      else Inr (tabulate (butlast (shape v) @ [1])
             (\<lambda>idx. q alg (embed_grade alg (vector_at v idx) 1))))"

definition compute_scalar_shell ::
  "algebra \<Rightarrow> real tensor \<Rightarrow> real tensor \<Rightarrow> error + real tensor" where
  "compute_scalar_shell alg v sigma =
     ebind (q_embed alg v) (\<lambda>q_v.
       let sgn = tmap (\<lambda>x. if x \<ge> 0 then 1 else - 1) q_v
       in ebind (bc (\<lambda>x y. x / y) (tmap (\<lambda>x. - \<bar>x\<bar>) q_v) (tmap (\<lambda>s. 2 * s\<^sup>2) sigma)) (\<lambda>a.
          bc (\<lambda>x y. x * y) sgn (tmap exp a)))"

text \<open>
  \<^verbatim>\<open>self.param("kernel_width", uniform(scale=0.2), shp)\<close>: the stored parameter, whose
  shape must be the declared one. At initialization the stored value is the initializer's
  draw, every entry of which lies in \<open>[0, scale)\<close>.
\<close>

definition param :: "real tensor \<Rightarrow> nat list \<Rightarrow> error + real tensor" where
  "param stored shp = (if shape stored = shp then Inr stored else Inl ParamShapeError)"

definition uniform_draw :: "real \<Rightarrow> real tensor \<Rightarrow> bool" where
  "uniform_draw scale t = (wf_tensor t \<and> list_all (\<lambda>x. 0 \<le> x \<and> x < scale) (data t))"

text \<open>The width of \<^verbatim>\<open>ScalarShell.__call__\<close> after "broadcasting along the grades".\<close>

definition ScalarShell_kernel_width ::
  "algebra \<Rightarrow> nat \<Rightarrow> nat \<Rightarrow> real tensor \<Rightarrow> error + real tensor" where
  "ScalarShell_kernel_width alg ci co stored =
     ebind (param stored [co, ci, n_subspaces alg]) (\<lambda>p.
       let kernel_width = tmap (\<lambda>x. x + 0.4) p
       in jnp_repeat kernel_width (subspaces alg) (- 1))"

definition ScalarShell_call ::
  "algebra \<Rightarrow> nat \<Rightarrow> nat \<Rightarrow> real tensor \<Rightarrow> real tensor \<Rightarrow> error + real tensor" where
  "ScalarShell_call alg ci co stored x =
     ebind (ScalarShell_kernel_width alg ci co stored) (\<lambda>kernel_width.
     ebind (reshape_infer kernel_width 1 (2 ^ dim_a alg)) (\<lambda>kernel_width.
     compute_scalar_shell alg x kernel_width))"

text \<open>The composed variant. The source also prints the shape of the result.\<close>

definition compute_composed_scalar_shell ::
  "algebra \<Rightarrow> real tensor \<Rightarrow> real tensor \<Rightarrow> error + real tensor" where
  "compute_composed_scalar_shell alg v sigma =
     ebind (q_embed alg v) (\<lambda>q_v.
     ebind (reshape q_v [tsize q_v, 1, 1, 1, 1]) (\<lambda>q_v.
       let sgn = tmap (\<lambda>x. if x \<ge> 0 then 1 else - 1) q_v
       in ebind (bc (\<lambda>x y. x / y) (tmap (\<lambda>x. - \<bar>x\<bar>) q_v) (tmap (\<lambda>s. 2 * s\<^sup>2) sigma)) (\<lambda>a.
          bc (\<lambda>x y. x * y) sgn (tmap exp a))))"

definition ComposedScalarShell_kernel_width ::
  "algebra \<Rightarrow> nat \<Rightarrow> nat \<Rightarrow> real tensor \<Rightarrow> error + real tensor" where
  "ComposedScalarShell_kernel_width alg ci co stored =
     ebind (param stored [co, ci, n_subspaces alg, n_subspaces alg]) (\<lambda>p.
       let kernel_width = tmap (\<lambda>x. x + 0.4) p
       in ebind (jnp_repeat kernel_width (subspaces alg) (- 2)) (\<lambda>kernel_width_out.
          jnp_repeat kernel_width_out (subspaces alg) (- 1)))"

definition ComposedScalarShell_call ::
  "algebra \<Rightarrow> nat \<Rightarrow> nat \<Rightarrow> real tensor \<Rightarrow> real tensor \<Rightarrow> error + real tensor" where
  "ComposedScalarShell_call alg ci co stored x =
     ebind (ComposedScalarShell_kernel_width alg ci co stored) (\<lambda>kernel_width.
     ebind (reshape kernel_width (1 # shape kernel_width)) (\<lambda>kernel_width.
     compute_composed_scalar_shell alg x kernel_width))"

subsection \<open>Underflow of the exponential\<close>

text \<open>
  The arrays of the source hold \<^verbatim>\<open>float32\<close> values. \<^verbatim>\<open>jnp.exp\<close> on such an array underflows:
  where the exponential is at most \<open>2 ^ -150\<close>, half the smallest positive \<^verbatim>\<open>float32\<close>
  value, the entry it returns is 0. \<open>exp_f32\<close> is the exponential with this underflow
  (the rounding of the values that do not underflow is left out), and the two functions
  below are \<^verbatim>\<open>compute_scalar_shell\<close> and \<^verbatim>\<open>compute_composed_scalar_shell\<close> with it.
\<close>

definition exp_f32 :: "real \<Rightarrow> real" where
  "exp_f32 x = (if exp x \<le> 1 / 2 ^ 150 then 0 else exp x)"



section \<open>Example inputs\<close>

text \<open>
  The two-dimensional Euclidean algebra of the spec's end-to-end scenario: \<open>d = 2\<close>, four
  blades \<open>1, e1, e2, e12\<close> in three grades of sizes 1, 2, 1. Every blade squares to \<open>+1\<close>,
  and a grade is embedded at the position of its first blade.
\<close>

definition Cl2 :: algebra where
  "Cl2 = \<lparr>dim_a = 2, n_blades = 4, n_subspaces = 3, subspaces = [1, 2, 1],
           q = (\<lambda>mv. sum_list (map (\<lambda>x. x * x) mv)),
           embed_grade = (\<lambda>v g. replicate (sum_list (take g [1, 2, 1])) 0 @ v @
                            replicate (4 - sum_list (take g [1, 2, 1]) - length v) 0)\<rparr>"


text \<open>The algebra of dimension 0: the scalars alone.\<close>

definition Cl0 :: algebra where
  "Cl0 = \<lparr>dim_a = 0, n_blades = 1, n_subspaces = 1, subspaces = [1],
           q = (\<lambda>mv. sum_list (map (\<lambda>x. x * x) mv)), embed_grade = (\<lambda>v g. [0])\<rparr>"

definition params0 :: kernel_params where
  "params0 = \<lparr>algebra = Cl2, c_in = 1, c_out = 1, kernel_size = 3, num_layers = 2,
               hidden_dim = 8, bias_dims = [0], product_paths_sum = 16\<rparr>"

definition ones :: "nat list \<Rightarrow> real tensor" where
  "ones s = tabulate s (\<lambda>_. 1)"

section \<open>Basic facts\<close>

lemma ebind_Inr [simp]: "ebind (Inr x) f = f x"
  by (simp add: ebind_def)

lemma ebind_Inl [simp]: "ebind (Inl e) f = Inl e"
  by (simp add: ebind_def)

lemma ebind_eq_Inr: "ebind m f = Inr y \<longleftrightarrow> (\<exists>x. m = Inr x \<and> f x = Inr y)"
  by (cases m) simp_all

lemma shape_tabulate [simp]: "shape (tabulate s f) = s"
  by (simp add: tabulate_def)

lemma wf_tabulate [simp]: "wf_tensor (tabulate s f)"
  by (simp add: tabulate_def wf_tensor_def)

subsection \<open>Indexing and broadcasting\<close>

lemma ravel_less: "list_all2 (<) idx s \<Longrightarrow> ravel s idx < prod_list s"
proof (induction idx s rule: list_all2_induct)
  case Nil
  then show ?case by simp
next
  case (Cons i idx n s)
  have "i * prod_list s + ravel s idx < i * prod_list s + prod_list s"
    using Cons.IH by simp
  also have "\<dots> = Suc i * prod_list s" by simp
  also have "\<dots> \<le> n * prod_list s"
    using Cons.hyps(1) by (intro mult_le_mono1) simp
  finally show ?case by simp
qed

lemma unravel_ravel: "list_all2 (<) idx s \<Longrightarrow> unravel s (ravel s idx) = idx"
proof (induction idx s rule: list_all2_induct)
  case Nil
  then show ?case by simp
next
  case (Cons i idx n s)
  have "ravel s idx < prod_list s" using Cons.hyps(2) by (rule ravel_less)
  then show ?case using Cons.IH by simp
qed

lemma unravel_valid: "k < prod_list s \<Longrightarrow> list_all2 (<) (unravel s k) s"
proof (induction s arbitrary: k)
  case Nil
  then show ?case by simp
next
  case (Cons n s)
  then have pos: "0 < prod_list s" by (cases "prod_list s = 0") simp_all
  have "k div prod_list s < n"
    using Cons.prems pos by (simp add: less_mult_imp_div_less mult.commute)
  moreover have "k mod prod_list s < prod_list s" using pos by simp
  ultimately show ?case using Cons.IH by simp
qed

lemma get_tabulate: "valid_idx s idx \<Longrightarrow> get (tabulate s f) idx = f idx"
  using ravel_less[of idx s] unravel_ravel[of idx s]
  by (simp add: get_def tabulate_def valid_idx_def)

lemma shape_tmap [simp]: "shape (tmap f t) = shape t"
  by (simp add: tmap_def)

lemma get_tmap: "valid_idx (shape t) idx \<Longrightarrow> get (tmap f t) idx = f (get t idx)"
  by (simp add: tmap_def get_tabulate)

lemma tabulate_all:
  "(\<And>idx. valid_idx s idx \<Longrightarrow> P (f idx)) \<Longrightarrow> list_all P (data (tabulate s f))"
  by (simp add: tabulate_def list_all_iff valid_idx_def unravel_valid)

lemma wf_get_all:
  "wf_tensor t \<Longrightarrow> list_all P (data t) \<Longrightarrow> valid_idx (shape t) idx \<Longrightarrow> P (get t idx)"
  using ravel_less[of idx "shape t"]
  by (simp add: wf_tensor_def list_all_iff get_def valid_idx_def)


lemma bsel_self: "list_all2 (<) is zs \<Longrightarrow> map2 bsel zs is = is"
  by (induction "is" zs rule: list_all2_induct) (auto simp: bsel_def)

lemma bshape_rev_valid:
  "bshape_rev xs ys = Inr zs \<Longrightarrow> list_all2 (<) is zs \<Longrightarrow>
     list_all2 (<) (map2 bsel xs is) xs \<and> list_all2 (<) (map2 bsel ys is) ys"
proof (induction xs ys arbitrary: zs "is" rule: bshape_rev.induct)
  case (1 ys)
  then show ?case by (simp add: bsel_self)
next
  case (2 x xs)
  then show ?case by (simp add: bsel_self)
next
  case (3 x xs y ys)
  from "3.prems"(1) obtain z zs' where zs: "zs = z # zs'" and
    rec: "bshape_rev xs ys = Inr zs'" and z: "z = (if x = y \<or> y = 1 then x else y)"
    and ok: "x = y \<or> y = 1 \<or> x = 1"
    by (auto simp: ebind_eq_Inr split: if_splits)
  from "3.prems"(2) zs obtain i is' where i: "is = i # is'" "i < z" "list_all2 (<) is' zs'"
    by (auto simp: list_all2_Cons2)
  have IH: "list_all2 (<) (map2 bsel xs is') xs \<and> list_all2 (<) (map2 bsel ys is') ys"
  proof (cases "x = y \<or> y = 1")
    case True
    then show ?thesis using "3.IH"(1)[OF True rec i(3)] by simp
  next
    case False
    with ok have "x = 1" by simp
    then show ?thesis using "3.IH"(2)[OF False _ rec i(3)] by simp
  qed
  show ?case using IH i z ok by (auto simp: bsel_def)
qed

lemma bshape_rev_refl: "bshape_rev xs xs = Inr xs"
  by (induction xs) simp_all

lemma bshape_rev_absorb: "bshape_rev xs ys = Inr zs \<Longrightarrow> bshape_rev xs zs = Inr zs"
proof (induction xs ys arbitrary: zs rule: bshape_rev.induct)
  case (1 ys)
  then show ?case by simp
next
  case (2 x xs)
  then show ?case by (simp add: bshape_rev_refl)
next
  case (3 x xs y ys)
  from "3.prems" obtain zs' where zs: "zs = (if x = y \<or> y = 1 then x else y) # zs'" and
    rec: "bshape_rev xs ys = Inr zs'" and ok: "x = y \<or> y = 1 \<or> x = 1"
    by (auto simp: ebind_eq_Inr split: if_splits)
  show ?case
  proof (cases "x = y \<or> y = 1")
    case True
    then show ?thesis using "3.IH"(1)[OF True rec] zs by simp
  next
    case False
    with ok have "x = 1" by simp
    then show ?thesis using "3.IH"(2)[OF False _ rec] zs False by simp
  qed
qed

lemma bshape_valid:
  assumes "bshape s1 s2 = Inr s" and "valid_idx s idx"
  shows "valid_idx s1 (bidx s1 idx)" and "valid_idx s2 (bidx s2 idx)"
proof -
  from assms(1) obtain zs where zs: "bshape_rev (rev s1) (rev s2) = Inr zs" "s = rev zs"
    by (auto simp: bshape_def ebind_eq_Inr)
  from assms(2) zs(2) have "list_all2 (<) (rev idx) zs"
    by (simp add: valid_idx_def list_all2_rev1)
  from bshape_rev_valid[OF zs(1) this]
  show "valid_idx s1 (bidx s1 idx)" and "valid_idx s2 (bidx s2 idx)"
    by (simp_all add: valid_idx_def bidx_def list_all2_rev1)
qed

lemma bshape_absorb: "bshape s1 s2 = Inr s \<Longrightarrow> bshape s1 s = Inr s"
  by (auto simp: bshape_def ebind_eq_Inr dest: bshape_rev_absorb)

lemma bidx_self: "valid_idx s idx \<Longrightarrow> bidx s idx = idx"
proof -
  assume "valid_idx s idx"
  then have "list_all2 (<) (rev idx) (rev s)" by (simp add: valid_idx_def)
  then have "map2 bsel (rev s) (rev idx) = rev idx" by (rule bsel_self)
  then show ?thesis by (simp add: bidx_def)
qed

lemma bc_Inr:
  assumes "bshape (shape a) (shape b) = Inr s"
  shows "bc f a b = Inr (tabulate s (\<lambda>idx. f (get a (bidx (shape a) idx)) (get b (bidx (shape b) idx))))"
  using assms by (simp add: bc_def)

text \<open>The expression both shell functions return, on an array of quadratic-form values.\<close>

lemma shell_body:
  fixes qv sigma :: "real tensor"
  assumes bs: "bshape (shape qv) (shape sigma) = Inr s"
  shows "\<exists>r. ebind (bc (\<lambda>x y. x / y) (tmap (\<lambda>x. - \<bar>x\<bar>) qv) (tmap (\<lambda>s. 2 * s\<^sup>2) sigma))
               (\<lambda>a. bc (\<lambda>x y. x * y) (tmap (\<lambda>x. if x \<ge> 0 then 1 else - 1) qv) (tmap exp a)) = Inr r
           \<and> shape r = s \<and> wf_tensor r
           \<and> (\<forall>idx. valid_idx s idx \<longrightarrow>
                get r idx = (if get qv (bidx (shape qv) idx) \<ge> 0 then 1 else - 1)
                  * exp (- \<bar>get qv (bidx (shape qv) idx)\<bar> / (2 * (get sigma (bidx (shape sigma) idx))\<^sup>2)))"
proof -
  let ?A = "tmap (\<lambda>x. - \<bar>x\<bar>) qv" and ?B = "tmap (\<lambda>s. 2 * s\<^sup>2) sigma"
  let ?sgn = "tmap (\<lambda>x. if x \<ge> 0 then 1 else - 1 :: real) qv"
  let ?a = "tabulate s (\<lambda>idx. get ?A (bidx (shape ?A) idx) / get ?B (bidx (shape ?B) idx))"
  let ?r = "tabulate s (\<lambda>idx. get ?sgn (bidx (shape ?sgn) idx)
                * get (tmap exp ?a) (bidx (shape (tmap exp ?a)) idx))"
  have a: "bc (\<lambda>x y. x / y) ?A ?B = Inr ?a"
    using bs by (simp add: bc_Inr)
  have r: "bc (\<lambda>x y. x * y) ?sgn (tmap exp ?a) = Inr ?r"
    using bshape_absorb[OF bs] by (simp add: bc_Inr)
  have "get ?r idx = (if get qv (bidx (shape qv) idx) \<ge> 0 then 1 else - 1)
                  * exp (- \<bar>get qv (bidx (shape qv) idx)\<bar> / (2 * (get sigma (bidx (shape sigma) idx))\<^sup>2))"
    if v: "valid_idx s idx" for idx
  proof -
    note vq = bshape_valid(1)[OF bs v] and vs = bshape_valid(2)[OF bs v]
    have "get ?r idx = get ?sgn (bidx (shape qv) idx) * get (tmap exp ?a) (bidx s idx)"
      using v by (simp add: get_tabulate)
    also have "get (tmap exp ?a) (bidx s idx) = exp (get ?a idx)"
      using v by (simp add: bidx_self get_tmap)
    also have "get ?a idx = get ?A (bidx (shape qv) idx) / get ?B (bidx (shape sigma) idx)"
      using v by (simp add: get_tabulate)
    finally show ?thesis using vq vs by (simp add: get_tmap)
  qed
  then show ?thesis using a r by simp
qed

subsection \<open>Shapes through the composed kernel\<close>

lemma reshape_Inr:
  "reshape t new = Inr r \<Longrightarrow> r = t\<lparr>shape := new\<rparr> \<and> prod_list new = prod_list (shape t)"
  by (auto simp: reshape_def tsize_def split: if_splits)

lemma reshape_mv_tensor_rank:
  "reshape_mv_tensor alg t = Inr r \<Longrightarrow> length (shape r) = length (shape t) + 2"
  by (auto simp: reshape_mv_tensor_def Let_def dest!: reshape_Inr split: list.splits if_splits)

lemma transpose_t_rank: "transpose_t axes t = Inr r \<Longrightarrow> length (shape t) = length axes"
  by (auto simp: transpose_t_def split: if_splits)

lemma transpose_t_wf: "transpose_t axes t = Inr r \<Longrightarrow> wf_tensor r"
  by (auto simp: transpose_t_def split: if_splits)

lemma conv_kernel_steps:
  assumes "conv_kernel alg k1 k2 = Inr r"
  obtains r1 k1' r2 k2' where
    "reshape_mv_tensor alg k1 = Inr r1" and "transpose_t [0, 2, 1, 3, 4, 5] r1 = Inr k1'" and
    "reshape_mv_tensor alg k2 = Inr r2" and "transpose_t [0, 2, 1, 3, 4, 5] r2 = Inr k2'"
  using assms unfolding conv_kernel_def ebind_eq_Inr by blast

lemma conv_kernel_rank:
  assumes "conv_kernel alg k1 k2 = Inr r"
  shows "length (shape k1) = 4 \<and> length (shape k2) = 4"
proof -
  from assms obtain r1 k1' r2 k2' where
    r1: "reshape_mv_tensor alg k1 = Inr r1" and t1: "transpose_t [0, 2, 1, 3, 4, 5] r1 = Inr k1'" and
    r2: "reshape_mv_tensor alg k2 = Inr r2" and t2: "transpose_t [0, 2, 1, 3, 4, 5] r2 = Inr k2'"
    by (rule conv_kernel_steps)
  from reshape_mv_tensor_rank[OF r1] transpose_t_rank[OF t1]
       reshape_mv_tensor_rank[OF r2] transpose_t_rank[OF t2]
  show ?thesis by simp
qed

lemma sequence_e_ok:
  "(\<And>m. m \<in> set ms \<Longrightarrow> \<exists>r. m = Inr r \<and> P r) \<Longrightarrow>
     \<exists>rs. sequence_e ms = Inr rs \<and> length rs = length ms \<and> list_all P rs"
proof (induction ms)
  case Nil
  then show ?case by simp
next
  case (Cons m ms)
  then obtain r where "m = Inr r" "P r" by auto
  moreover from Cons obtain rs where
    "sequence_e ms = Inr rs" "length rs = length ms" "list_all P rs" by auto
  ultimately show ?case by simp
qed

lemma shape_slice0 [simp]: "shape (slice0 t i) = tl (shape t)"
  by (simp add: slice0_def)

lemma vmap2_ok:
  assumes a: "shape a = n # sa" and b: "shape b = n # sb"
    and f: "\<And>x y. shape x = sa \<Longrightarrow> shape y = sb \<Longrightarrow> \<exists>r. f x y = Inr r \<and> shape r = so"
  shows "\<exists>r. vmap2 f a b = Inr r \<and> shape r = n # so"
proof -
  let ?ms = "map (\<lambda>i. f (slice0 a i) (slice0 b i)) [0..<n]"
  obtain r0 where r0: "f (zeros sa) (zeros sb) = Inr r0" "shape r0 = so"
    using f[of "zeros sa" "zeros sb"] by (auto simp: zeros_def)
  have "\<exists>rs. sequence_e ?ms = Inr rs \<and> length rs = length ?ms \<and> list_all (\<lambda>r. shape r = so) rs"
  proof (rule sequence_e_ok)
    fix m assume "m \<in> set ?ms"
    then obtain i where "m = f (slice0 a i) (slice0 b i)" by auto
    then show "\<exists>r. m = Inr r \<and> shape r = so"
      using f[of "slice0 a i" "slice0 b i"] a b by simp
  qed
  then obtain rs where "sequence_e ?ms = Inr rs" by blast
  then show ?thesis using a b r0 by (simp add: vmap2_def)
qed

lemma lax_conv_ok:
  assumes "shape x = [n, c, k, k]" and "shape y = [n', c, k, k]" and "0 < k"
  shows "\<exists>r. lax_conv x y = Inr r \<and> shape r = [n, n', k, k]"
  using assms by (simp add: lax_conv_def Let_def)

lemma transpose_6_ok:
  assumes "shape t = [a, b, c, d, e, f]"
  shows "\<exists>r. transpose_t [0, 2, 1, 3, 4, 5] t = Inr r \<and> shape r = [a, c, b, d, e, f]"
  using assms by (simp add: transpose_t_def upt_rec)

lemma reshape_mv_tensor_ok:
  assumes "shape t = [co * n_blades alg, ci * n_blades alg, k, k']" and "0 < n_blades alg"
  shows "\<exists>r. reshape_mv_tensor alg t = Inr r \<and>
              shape r = [co, n_blades alg, ci, n_blades alg, k, k']"
  using assms by (simp add: reshape_mv_tensor_def reshape_def tsize_def)

lemma reshape_back_ok:
  assumes "shape t = [co, n, ci, n', k, k']" and "n = n_blades alg" and "n' = n_blades alg"
    and "wf_tensor t"
  shows "\<exists>r. reshape_back alg t = Inr r \<and>
              shape r = [co * n_blades alg, ci * n_blades alg, k, k'] \<and> wf_tensor r"
  using assms by (simp add: reshape_back_def reshape_def tsize_def wf_tensor_def)

lemma conv_kernel_same_shape:
  assumes k1: "shape k1 = [co * n_blades alg, ci * n_blades alg, k, k]"
    and k2: "shape k2 = [co * n_blades alg, ci * n_blades alg, k, k]"
    and n: "0 < n_blades alg" and k: "0 < k"
  shows "\<exists>r. conv_kernel alg k1 k2 = Inr r \<and>
              shape r = [co * n_blades alg, ci * n_blades alg, k, k] \<and> wf_tensor r"
proof -
  let ?n = "n_blades alg"
  obtain r1 where r1: "reshape_mv_tensor alg k1 = Inr r1" "shape r1 = [co, ?n, ci, ?n, k, k]"
    using reshape_mv_tensor_ok[OF k1 n] by blast
  obtain k1' where k1': "transpose_t [0, 2, 1, 3, 4, 5] r1 = Inr k1'"
      "shape k1' = [co, ci, ?n, ?n, k, k]"
    using transpose_6_ok[OF r1(2)] by blast
  obtain r2 where r2: "reshape_mv_tensor alg k2 = Inr r2" "shape r2 = [co, ?n, ci, ?n, k, k]"
    using reshape_mv_tensor_ok[OF k2 n] by blast
  obtain k2' where k2': "transpose_t [0, 2, 1, 3, 4, 5] r2 = Inr k2'"
      "shape k2' = [co, ci, ?n, ?n, k, k]"
    using transpose_6_ok[OF r2(2)] by blast
  have inner: "\<exists>r. conv_kernel_14 x y = Inr r \<and> shape r = [ci, ?n, ?n, k, k]"
    if "shape x = [ci, ?n, ?n, k, k]" and "shape y = [ci, ?n, ?n, k, k]" for x y
    unfolding conv_kernel_14_def
  proof (rule vmap2_ok[OF that])
    fix x' y' :: "real tensor"
    assume "shape x' = [?n, ?n, k, k]" and "shape y' = [?n, ?n, k, k]"
    then show "\<exists>r. conv_kernel_11 x' y' = Inr r \<and> shape r = [?n, ?n, k, k]"
      unfolding conv_kernel_11_def using lax_conv_ok k by blast
  qed
  obtain kk where kk: "vmap2 conv_kernel_14 k1' k2' = Inr kk"
      "shape kk = [co, ci, ?n, ?n, k, k]"
    using vmap2_ok[OF k1'(2) k2'(2), of conv_kernel_14 "[ci, ?n, ?n, k, k]"] inner by blast
  obtain kt where kt: "transpose_t [0, 2, 1, 3, 4, 5] kk = Inr kt"
      "shape kt = [co, ?n, ci, ?n, k, k]"
    using transpose_6_ok[OF kk(2)] by blast
  obtain r where r: "reshape_back alg kt = Inr r" "shape r = [co * ?n, ci * ?n, k, k]"
      "wf_tensor r"
    using reshape_back_ok[OF kt(2) refl refl transpose_t_wf[OF kt(1)]] by blast
  show ?thesis
    using r1 k1' r2 k2' kk kt r by (simp add: conv_kernel_def)
qed

lemma floor_mult_less:
  fixes A B n :: nat
  assumes "0 < A" and "0 < B" and "\<not> n dvd A \<or> \<not> n dvd B"
  shows "(A div n * n) * (B div n * n) < A * B"
proof -
  have a: "A div n * n \<le> A" and b: "B div n * n \<le> B" by simp_all
  from assms(3) consider "A div n * n < A" | "B div n * n < B"
    by (metis a b dvd_triv_right le_neq_implies_less)
  then show ?thesis
  proof cases
    case 1
    then have "(A div n * n) * (B div n * n) \<le> (A div n * n) * B" using b by simp
    also have "\<dots> < A * B" using 1 assms(2) by simp
    finally show ?thesis .
  next
    case 2
    then have "(A div n * n) * (B div n * n) \<le> A * (B div n * n)" using a by simp
    also have "\<dots> < A * B" using 2 assms(1) by simp
    finally show ?thesis .
  qed
qed

lemma reshape_mv_tensor_mismatch:
  assumes s: "shape t = A # B # dims" and ne: "0 < tsize t"
    and nd: "\<not> n_blades alg dvd A \<or> \<not> n_blades alg dvd B"
  shows "isl (reshape_mv_tensor alg t)"
proof (cases "n_blades alg = 0")
  case True
  then show ?thesis using s by (simp add: reshape_mv_tensor_def)
next
  case False
  let ?n = "n_blades alg"
  from s ne have pos: "0 < A" "0 < B" "0 < prod_list dims" by (simp_all add: tsize_def)
  have "(A div ?n * ?n) * (B div ?n * ?n) < A * B"
    using floor_mult_less[OF pos(1,2) nd] .
  then have "(A div ?n * ?n) * (B div ?n * ?n) * prod_list dims < A * B * prod_list dims"
    using pos(3) by simp
  then have "prod_list (A div ?n # ?n # B div ?n # ?n # dims) \<noteq> tsize t"
    using s by (simp add: tsize_def mult.assoc)
  then show ?thesis using s False
    by (simp add: reshape_mv_tensor_def reshape_def Let_def)
qed

lemma conv_kernel_mismatch:
  assumes "isl (reshape_mv_tensor alg k1) \<or> isl (reshape_mv_tensor alg k2)"
  shows "isl (conv_kernel alg k1 k2)"
proof (cases "conv_kernel alg k1 k2")
  case (Inl e)
  then show ?thesis by simp
next
  case (Inr r)
  then obtain r1 k1' r2 k2' where
    "reshape_mv_tensor alg k1 = Inr r1" "reshape_mv_tensor alg k2 = Inr r2"
    by (rule conv_kernel_steps)
  with assms show ?thesis by auto
qed

section \<open>Properties of \<^verbatim>\<open>ckernel.py\<close>\<close>

text \<open>
  C2 (reshape round-trip). Every algebra has \<open>2 ^ d > 0\<close> blades. For a tensor \<open>t\<close> of shape
  \<open>(A, B, *dims)\<close> whose two leading axes are multiples of \<open>n_blades\<close>,
  \<^verbatim>\<open>reshape_mv_tensor\<close> followed by \<^verbatim>\<open>reshape_back\<close> succeeds and returns \<open>t\<close> itself: the
  same shape and the same entries.
\<close>

theorem reshape_round_trip:
  assumes "shape t = A # B # dims" and "0 < n_blades alg"
    and "n_blades alg dvd A" and "n_blades alg dvd B"
  shows "ebind (reshape_mv_tensor alg t) (reshape_back alg) = Inr t"
  using assms
  by (auto simp: reshape_mv_tensor_def reshape_back_def reshape_def tsize_def Let_def)

theorem reshape_round_trip_witness:
  "ebind (reshape_mv_tensor Cl2 \<lparr>shape = [4, 8, 1], data = map real [0..<32]\<rparr>) (reshape_back Cl2)
     = Inr \<lparr>shape = [4, 8, 1], data = map real [0..<32]\<rparr>"
  using reshape_round_trip[of "\<lparr>shape = [4, 8, 1], data = map real [0..<32]\<rparr>" 4 8 "[1]" Cl2]
  by (simp add: Cl2_def)

text \<open>
  C3 (composed-kernel shape). Two kernels of shape \<open>(c_out * n_blades, c_in * n_blades, k, k)\<close>,
  for an algebra with \<open>n_blades > 0\<close> and a kernel size \<open>k > 0\<close>, are composed without an
  error by \<^verbatim>\<open>conv_kernel\<close>, and so by \<^verbatim>\<open>ComposedCliffordSteerableKernel.__call__\<close> when
  its two steerable kernels have this shape; the result is an array of exactly the same
  shape: the "SAME"-padded convolution with stride 1 keeps the spatial size \<open>k\<close>.
\<close>

theorem composed_kernel_shape:
  assumes "shape k1 = [co * n_blades (algebra self), ci * n_blades (algebra self), k, k]"
    and "shape k2 = [co * n_blades (algebra self), ci * n_blades (algebra self), k, k]"
    and "0 < n_blades (algebra self)" and "0 < k"
  shows "(\<exists>r. conv_kernel (algebra self) k1 k2 = Inr r \<and> wf_tensor r \<and>
              shape r = [co * n_blades (algebra self), ci * n_blades (algebra self), k, k]) \<and>
         (\<exists>r. ComposedCliffordSteerableKernel_call self (Inr k1) (Inr k2) = Inr r \<and> wf_tensor r \<and>
              shape r = [co * n_blades (algebra self), ci * n_blades (algebra self), k, k])"
  using conv_kernel_same_shape[OF assms]
  by (auto simp: ComposedCliffordSteerableKernel_call_def)

theorem composed_kernel_shape_witness:
  "(\<exists>r. conv_kernel Cl2 (ones [4, 4, 3, 3]) (ones [4, 4, 3, 3]) = Inr r \<and> wf_tensor r \<and>
        shape r = [4, 4, 3, 3]) \<and>
   (\<exists>r. ComposedCliffordSteerableKernel_call params0
          (Inr (ones [4, 4, 3, 3])) (Inr (ones [4, 4, 3, 3])) = Inr r \<and> wf_tensor r \<and>
        shape r = [4, 4, 3, 3])"
  using composed_kernel_shape[of "ones [4, 4, 3, 3]" 1 params0 1 3 "ones [4, 4, 3, 3]"]
  by (simp add: ones_def params0_def Cl2_def)

text \<open>
  C9 (two spatial dimensions only). When one of the two kernels does not have exactly two
  spatial axes, that is, rank 4, \<^verbatim>\<open>conv_kernel\<close> raises: the transposition
  \<open>(0, 2, 1, 3, 4, 5)\<close> needs the reshaped kernel to have rank 6.
\<close>

theorem conv_kernel_two_spatial_dims_only:
  "length (shape k1) \<noteq> 4 \<or> length (shape k2) \<noteq> 4 \<Longrightarrow> isl (conv_kernel alg k1 k2)"
  using conv_kernel_rank[of alg k1 k2] by (cases "conv_kernel alg k1 k2") auto

theorem conv_kernel_two_spatial_dims_only_witness:
  "isl (conv_kernel Cl2 (ones [4, 4, 3]) (ones [4, 4, 3])) \<and>
   isl (conv_kernel Cl2 (ones [4, 4, 1, 1]) (ones [4, 4, 2, 2, 2]))"
  using conv_kernel_two_spatial_dims_only[of "ones [4, 4, 3]" "ones [4, 4, 3]" Cl2]
    conv_kernel_two_spatial_dims_only[of "ones [4, 4, 1, 1]" "ones [4, 4, 2, 2, 2]" Cl2]
  by (simp add: ones_def)

text \<open>
  A kernel of even size is padded on one side only. Two kernels of size 2 that are
  constant over the four offsets, and so unchanged by every reflection and rotation of
  the grid, are composed to a kernel that is not: its entries are 4, 2, 2, 1.
\<close>

theorem even_kernel_composition_not_symmetric:
  "conv_kernel Cl0 \<lparr>shape = [1, 1, 2, 2], data = [1, 1, 1, 1]\<rparr>
      \<lparr>shape = [1, 1, 2, 2], data = [1, 1, 1, 1]\<rparr>
     = Inr \<lparr>shape = [1, 1, 2, 2], data = [4, 2, 2, 1]\<rparr>"
  by code_simp

text \<open>
  C8 (errors at assembly time). The code has no check of its own: a mismatch is caught by
  the size check of \<^verbatim>\<open>reshape\<close> only. As stated the claim fails: on an empty array
  \<^verbatim>\<open>reshape_mv_tensor\<close> returns an array although the leading axis 6 is not a multiple of
  the 4 blades.
\<close>

theorem reshape_mv_tensor_accepts_empty_mismatch:
  "reshape_mv_tensor Cl2 \<lparr>shape = [6, 0], data = ([] :: real list)\<rparr>
     = Inr \<lparr>shape = [1, 4, 0, 4], data = []\<rparr> \<and> \<not> n_blades Cl2 dvd 6"
  by (simp add: reshape_mv_tensor_def reshape_def tsize_def Cl2_def)

text \<open>
  C8, amended. For an array \<open>t\<close> with no empty axis and a leading axis that is not a
  multiple of \<open>n_blades\<close>, \<^verbatim>\<open>reshape_mv_tensor\<close> raises, and so do \<^verbatim>\<open>conv_kernel\<close> and
  \<^verbatim>\<open>ComposedCliffordSteerableKernel.__call__\<close> when \<open>t\<close> is either of the two kernels: no array
  is returned.
\<close>

theorem shape_errors_on_nonempty_tensors:
  assumes "shape t = A # B # dims" and "0 < tsize t"
    and "\<not> n_blades (algebra self) dvd A \<or> \<not> n_blades (algebra self) dvd B"
  shows "isl (reshape_mv_tensor (algebra self) t) \<and>
         isl (conv_kernel (algebra self) t k2) \<and> isl (conv_kernel (algebra self) k1 t) \<and>
         isl (ComposedCliffordSteerableKernel_call self (Inr t) s2) \<and>
         isl (ComposedCliffordSteerableKernel_call self s1 (Inr t))"
proof -
  have m: "isl (reshape_mv_tensor (algebra self) t)"
    using assms by (rule reshape_mv_tensor_mismatch)
  have c: "isl (conv_kernel (algebra self) t k) \<and> isl (conv_kernel (algebra self) k t)" for k
    using m by (simp add: conv_kernel_mismatch)
  show ?thesis
    using m c by (cases s1; cases s2) (simp_all add: ComposedCliffordSteerableKernel_call_def)
qed

theorem shape_errors_on_nonempty_tensors_witness:
  "isl (reshape_mv_tensor Cl2 (ones [6, 4, 1, 1])) \<and>
   isl (conv_kernel Cl2 (ones [6, 4, 1, 1]) (ones [4, 4, 1, 1])) \<and>
   isl (conv_kernel Cl2 (ones [4, 4, 1, 1]) (ones [6, 4, 1, 1])) \<and>
   isl (ComposedCliffordSteerableKernel_call params0
          (Inr (ones [6, 4, 1, 1])) (Inr (ones [4, 4, 1, 1]))) \<and>
   isl (ComposedCliffordSteerableKernel_call params0
          (Inr (ones [4, 4, 1, 1])) (Inr (ones [6, 4, 1, 1])))"
  using shape_errors_on_nonempty_tensors[of "ones [6, 4, 1, 1]" 6 4 "[1, 1]" params0
      "ones [4, 4, 1, 1]" "ones [4, 4, 1, 1]" "Inr (ones [4, 4, 1, 1])" "Inr (ones [4, 4, 1, 1])"]
  by (simp add: ones_def params0_def Cl2_def tsize_def)

section \<open>Facts about the scalar shell\<close>



lemma q_embed_Inr:
  "shape v \<noteq> [] \<Longrightarrow> q_embed alg v =
     Inr (tabulate (butlast (shape v) @ [1]) (\<lambda>idx. q alg (embed_grade alg (vector_at v idx) 1)))"
  by (simp add: q_embed_def)







lemma compute_composed_scalar_shell_entries:
  assumes v: "shape v \<noteq> []"
    and bs: "bshape [prod_list (butlast (shape v)), 1, 1, 1, 1] (shape sigma) = Inr s"
  shows "\<exists>r qs. compute_composed_scalar_shell alg v sigma = Inr r \<and> shape r = s \<and> wf_tensor r \<and>
           (\<forall>idx. valid_idx s idx \<longrightarrow>
              get r idx = (if qs idx \<ge> 0 then 1 else - 1)
                * exp (- \<bar>qs idx\<bar> / (2 * (get sigma (bidx (shape sigma) idx))\<^sup>2)))"
proof -
  let ?qv = "tabulate (butlast (shape v) @ [1]) (\<lambda>idx. q alg (embed_grade alg (vector_at v idx) 1))"
  let ?q5 = "?qv\<lparr>shape := [tsize ?qv, 1, 1, 1, 1]\<rparr>"
  have ts: "tsize ?qv = prod_list (butlast (shape v))" by (simp add: tsize_def)
  have rs: "reshape ?qv [tsize ?qv, 1, 1, 1, 1] = Inr ?q5" by (simp add: reshape_def)
  have bs': "bshape (shape ?q5) (shape sigma) = Inr s" using bs ts by simp
  from shell_body[OF bs'] obtain r where
    r: "ebind (bc (\<lambda>x y. x / y) (tmap (\<lambda>x. - \<bar>x\<bar>) ?q5) (tmap (\<lambda>s. 2 * s\<^sup>2) sigma))
               (\<lambda>a. bc (\<lambda>x y. x * y) (tmap (\<lambda>x. if x \<ge> 0 then 1 else - 1) ?q5) (tmap exp a)) = Inr r"
     and sh: "shape r = s" "wf_tensor r"
     and ent: "\<And>idx. valid_idx s idx \<Longrightarrow>
                get r idx = (if get ?q5 (bidx (shape ?q5) idx) \<ge> 0 then 1 else - 1)
                  * exp (- \<bar>get ?q5 (bidx (shape ?q5) idx)\<bar> / (2 * (get sigma (bidx (shape sigma) idx))\<^sup>2))"
    by blast
  have c: "compute_composed_scalar_shell alg v sigma = Inr r"
    using r rs by (simp add: compute_composed_scalar_shell_def q_embed_Inr[OF v] Let_def)
  show ?thesis
    using c sh ent by (intro exI[of _ r] exI[of _ "\<lambda>idx. get ?q5 (bidx (shape ?q5) idx)"]) simp
qed

subsection \<open>The shell with the underflow of the exponential\<close>








lemma exp_f32_exact: "1 / 2 ^ 150 < exp x \<Longrightarrow> exp_f32 x = exp x"
  by (simp add: exp_f32_def)

subsection \<open>The widths\<close>

lemma rep_index_alt:
  "rep_index reps = concat (map (\<lambda>g. replicate (reps ! g) g) [0..<length reps])"
proof -
  have "map2 replicate reps [0..<length reps] = map (\<lambda>g. replicate (reps ! g) g) [0..<length reps]"
    by (rule nth_equalityI) simp_all
  then show ?thesis by (simp add: rep_index_def)
qed

lemma length_rep_index: "length (rep_index reps) = sum_list reps"
proof -
  have "map (\<lambda>g. reps ! g) [0..<length reps] = reps" by (rule map_nth)
  then show ?thesis
    by (simp add: rep_index_alt length_concat comp_def)
qed

lemma rep_index_less: "b < sum_list reps \<Longrightarrow> rep_index reps ! b < length reps"
proof -
  assume "b < sum_list reps"
  then have "rep_index reps ! b \<in> set (rep_index reps)"
    by (simp add: length_rep_index)
  then show ?thesis by (auto simp: rep_index_alt)
qed

lemma map_rep_index:
  "map f (rep_index reps) = concat (map (\<lambda>g. replicate (reps ! g) (f g)) [0..<length reps])"
  by (simp add: rep_index_alt map_concat comp_def)

lemma map_nth_fun: "map (\<lambda>i. f (xs ! i)) [0..<length xs] = map f xs"
  by (rule nth_equalityI) simp_all

lemma repeats_self:
  "length reps = n \<Longrightarrow> (if length reps = 1 then replicate n (hd reps) else reps) = reps"
  by (cases reps) auto

lemma jnp_repeat_Inr:
  assumes ax: "ax < length (shape t)" and axis: "axis = int ax - int (length (shape t))"
    and n: "length reps = shape t ! ax"
  shows "jnp_repeat t reps axis =
     Inr (tabulate ((shape t)[ax := sum_list reps]) (\<lambda>idx. get t (idx[ax := rep_index reps ! (idx ! ax)])))"
proof -
  have a: "nat (if axis < 0 then axis + int (length (shape t)) else axis) = ax"
    using ax axis by simp
  have b: "\<not> (axis < - int (length (shape t)) \<or> int (length (shape t)) \<le> axis)"
    using ax axis by simp
  have c: "(if length reps = 1 then replicate (shape t ! ax) (hd reps) else reps) = reps"
    using n by (rule repeats_self)
  show ?thesis
    unfolding jnp_repeat_def Let_def a c using b n by simp
qed

lemma valid_idx_repeat:
  assumes v: "valid_idx (s[ax := sum_list reps]) idx" and ax: "ax < length s"
    and n: "length reps = s ! ax"
  shows "valid_idx s (idx[ax := rep_index reps ! (idx ! ax)])"
proof -
  from v have len: "length idx = length s"
    and lt: "\<And>i. i < length s \<Longrightarrow> idx ! i < (s[ax := sum_list reps]) ! i"
    by (auto simp: valid_idx_def list_all2_conv_all_nth)
  have "idx ! ax < sum_list reps" using lt[OF ax] ax by simp
  then have r: "rep_index reps ! (idx ! ax) < s ! ax"
    using rep_index_less[of "idx ! ax" reps] n by simp
  have "(idx[ax := rep_index reps ! (idx ! ax)]) ! i < s ! i" if "i < length s" for i
    using lt[OF that] r len that by (cases "i = ax") simp_all
  then show ?thesis using len by (simp add: valid_idx_def list_all2_conv_all_nth)
qed

lemma valid_idx3: "valid_idx [a, b, c] [i, j, k] \<longleftrightarrow> i < a \<and> j < b \<and> k < c"
  by (simp add: valid_idx_def)

lemma valid_idx4: "valid_idx [a, b, c, d] [i, j, k, l] \<longleftrightarrow> i < a \<and> j < b \<and> k < c \<and> l < d"
  by (simp add: valid_idx_def)

lemma ScalarShell_kernel_width_Inr:
  assumes len: "length (subspaces alg) = n_subspaces alg"
    and st: "shape stored = [co, ci, n_subspaces alg]"
  shows "ScalarShell_kernel_width alg ci co stored =
     Inr (tabulate [co, ci, sum_list (subspaces alg)]
            (\<lambda>idx. get (tmap (\<lambda>x. x + 0.4) stored) (idx[2 := rep_index (subspaces alg) ! (idx ! 2)])))"
proof -
  let ?kw = "tmap (\<lambda>x. x + 0.4) stored"
  have "jnp_repeat ?kw (subspaces alg) (- 1) =
     Inr (tabulate ((shape ?kw)[2 := sum_list (subspaces alg)])
            (\<lambda>idx. get ?kw (idx[2 := rep_index (subspaces alg) ! (idx ! 2)])))"
    by (rule jnp_repeat_Inr) (simp_all add: st len)
  then show ?thesis
    by (simp add: ScalarShell_kernel_width_def param_def st Let_def)
qed

lemma ComposedScalarShell_kernel_width_Inr:
  assumes len: "length (subspaces alg) = n_subspaces alg"
    and st: "shape stored = [co, ci, n_subspaces alg, n_subspaces alg]"
  shows "ComposedScalarShell_kernel_width alg ci co stored =
     Inr (tabulate [co, ci, sum_list (subspaces alg), sum_list (subspaces alg)]
            (\<lambda>idx. get (tabulate [co, ci, sum_list (subspaces alg), n_subspaces alg]
                 (\<lambda>idx. get (tmap (\<lambda>x. x + 0.4) stored) (idx[2 := rep_index (subspaces alg) ! (idx ! 2)])))
               (idx[3 := rep_index (subspaces alg) ! (idx ! 3)])))"
proof -
  let ?kw = "tmap (\<lambda>x. x + 0.4) stored"
  let ?out = "tabulate [co, ci, sum_list (subspaces alg), n_subspaces alg]
                 (\<lambda>idx. get ?kw (idx[2 := rep_index (subspaces alg) ! (idx ! 2)]))"
  have 1: "jnp_repeat ?kw (subspaces alg) (- 2) = Inr ?out"
    using jnp_repeat_Inr[of 2 ?kw "- 2" "subspaces alg"] by (simp add: st len)
  have 2: "jnp_repeat ?out (subspaces alg) (- 1) =
     Inr (tabulate [co, ci, sum_list (subspaces alg), sum_list (subspaces alg)]
            (\<lambda>idx. get ?out (idx[3 := rep_index (subspaces alg) ! (idx ! 3)])))"
    using jnp_repeat_Inr[of 3 ?out "- 1" "subspaces alg"] by (simp add: len)
  show ?thesis
    using 1 2 by (simp add: ComposedScalarShell_kernel_width_def param_def st Let_def)
qed

lemma ScalarShell_kernel_width_entry:
  assumes len: "length (subspaces alg) = n_subspaces alg"
    and st: "shape stored = [co, ci, n_subspaces alg]"
    and w: "ScalarShell_kernel_width alg ci co stored = Inr w"
    and i: "o' < co" "i < ci" "b < sum_list (subspaces alg)"
  shows "get w [o', i, b] = get stored [o', i, rep_index (subspaces alg) ! b] + 0.4"
proof -
  have r: "rep_index (subspaces alg) ! b < n_subspaces alg"
    using rep_index_less[OF i(3)] len by simp
  show ?thesis
    using w i r unfolding ScalarShell_kernel_width_Inr[OF len st]
    by (auto simp: get_tabulate valid_idx3 get_tmap st)
qed

lemma ComposedScalarShell_kernel_width_entry:
  assumes len: "length (subspaces alg) = n_subspaces alg"
    and st: "shape stored = [co, ci, n_subspaces alg, n_subspaces alg]"
    and w: "ComposedScalarShell_kernel_width alg ci co stored = Inr w"
    and i: "o' < co" "i < ci" "a < sum_list (subspaces alg)" "b < sum_list (subspaces alg)"
  shows "get w [o', i, a, b] =
     get stored [o', i, rep_index (subspaces alg) ! a, rep_index (subspaces alg) ! b] + 0.4"
proof -
  have r: "rep_index (subspaces alg) ! a < n_subspaces alg"
      "rep_index (subspaces alg) ! b < n_subspaces alg"
    using rep_index_less[OF i(3)] rep_index_less[OF i(4)] len by simp_all
  show ?thesis
    using w i r unfolding ComposedScalarShell_kernel_width_Inr[OF len st]
    by (auto simp: get_tabulate valid_idx4 get_tmap st)
qed

lemma ScalarShell_kernel_width_floor:
  assumes len: "length (subspaces alg) = n_subspaces alg"
    and st: "shape stored = [co, ci, n_subspaces alg]"
    and u: "uniform_draw scale stored"
  shows "\<exists>w. ScalarShell_kernel_width alg ci co stored = Inr w \<and> wf_tensor w \<and>
           shape w = [co, ci, sum_list (subspaces alg)] \<and> list_all (\<lambda>x. 0.4 \<le> x) (data w)"
proof -
  let ?R = "rep_index (subspaces alg)"
  have "0.4 \<le> get (tmap (\<lambda>x. x + 0.4) stored) (idx[2 := ?R ! (idx ! 2)])"
    if v: "valid_idx [co, ci, sum_list (subspaces alg)] idx" for idx
  proof -
    have src: "valid_idx (shape stored) (idx[2 := ?R ! (idx ! 2)])"
      using valid_idx_repeat[of "[co, ci, n_subspaces alg]" 2 "subspaces alg" idx] v len st
      by simp
    have "0 \<le> get stored (idx[2 := ?R ! (idx ! 2)])"
      using wf_get_all[of stored "\<lambda>x. 0 \<le> x \<and> x < scale", OF _ _ src] u
      by (simp add: uniform_draw_def)
    then show ?thesis using src by (simp add: get_tmap)
  qed
  then show ?thesis
    unfolding ScalarShell_kernel_width_Inr[OF len st]
    by (simp add: tabulate_all)
qed

lemma ComposedScalarShell_kernel_width_floor:
  assumes len: "length (subspaces alg) = n_subspaces alg"
    and st: "shape stored = [co, ci, n_subspaces alg, n_subspaces alg]"
    and u: "uniform_draw scale stored"
  shows "\<exists>w. ComposedScalarShell_kernel_width alg ci co stored = Inr w \<and> wf_tensor w \<and>
           shape w = [co, ci, sum_list (subspaces alg), sum_list (subspaces alg)] \<and>
           list_all (\<lambda>x. 0.4 \<le> x) (data w)"
proof -
  let ?R = "rep_index (subspaces alg)"
  let ?S = "sum_list (subspaces alg)"
  let ?kw = "tmap (\<lambda>x. x + 0.4) stored"
  let ?out = "tabulate [co, ci, ?S, n_subspaces alg] (\<lambda>idx. get ?kw (idx[2 := ?R ! (idx ! 2)]))"
  have "0.4 \<le> get ?out (idx[3 := ?R ! (idx ! 3)])"
    if v: "valid_idx [co, ci, ?S, ?S] idx" for idx
  proof -
    let ?i1 = "idx[3 := ?R ! (idx ! 3)]"
    have v1: "valid_idx [co, ci, ?S, n_subspaces alg] ?i1"
      using valid_idx_repeat[of "[co, ci, ?S, n_subspaces alg]" 3 "subspaces alg" idx] v len
      by simp
    have src: "valid_idx (shape stored) (?i1[2 := ?R ! (?i1 ! 2)])"
      using valid_idx_repeat[of "[co, ci, n_subspaces alg, n_subspaces alg]" 2 "subspaces alg" ?i1]
        v1 len st by simp
    have "0 \<le> get stored (?i1[2 := ?R ! (?i1 ! 2)])"
      using wf_get_all[of stored "\<lambda>x. 0 \<le> x \<and> x < scale", OF _ _ src] u
      by (simp add: uniform_draw_def)
    then have "0.4 \<le> get ?kw (?i1[2 := ?R ! (?i1 ! 2)])"
      using src by (simp add: get_tmap)
    then show ?thesis using v1 by (simp add: get_tabulate)
  qed
  then show ?thesis
    unfolding ComposedScalarShell_kernel_width_Inr[OF len st]
    by (simp add: tabulate_all)
qed

section \<open>Properties of \<^verbatim>\<open>shell.py\<close>\<close>








text \<open>
  C7 (per-grade width broadcast). For an algebra whose grade metadata is consistent and a
  stored parameter of shape \<open>(c_out, c_in, n_subspaces)\<close>, the width of \<^verbatim>\<open>ScalarShell\<close> after
  \<^verbatim>\<open>jnp.repeat\<close> has shape \<open>(c_out, c_in, n_blades)\<close>, and each of its rows is the row of the
  parameter plus 0.4 with the width of grade \<open>g\<close> repeated \<open>subspaces[g]\<close> times, grade after
  grade. For \<^verbatim>\<open>ComposedScalarShell\<close> and a parameter of shape
  \<open>(c_out, c_in, n_subspaces, n_subspaces)\<close> the width has shape
  \<open>(c_out, c_in, n_blades, n_blades)\<close>, and each of its matrices is expanded in the same way
  along both axes.
\<close>

theorem width_broadcast:
  assumes inv: "algebra_inv alg"
    and st: "shape stored = [co, ci, n_subspaces alg]"
    and st': "shape stored' = [co, ci, n_subspaces alg, n_subspaces alg]"
  shows "(\<exists>w. ScalarShell_kernel_width alg ci co stored = Inr w \<and>
              shape w = [co, ci, n_blades alg] \<and>
              (\<forall>o' i. o' < co \<and> i < ci \<longrightarrow>
                 map (\<lambda>b. get w [o', i, b]) [0..<n_blades alg] =
                 concat (map (\<lambda>g. replicate (subspaces alg ! g) (get stored [o', i, g] + 0.4))
                           [0..<n_subspaces alg]))) \<and>
         (\<exists>w. ComposedScalarShell_kernel_width alg ci co stored' = Inr w \<and>
              shape w = [co, ci, n_blades alg, n_blades alg] \<and>
              (\<forall>o' i. o' < co \<and> i < ci \<longrightarrow>
                 map (\<lambda>a. map (\<lambda>b. get w [o', i, a, b]) [0..<n_blades alg]) [0..<n_blades alg] =
                 concat (map (\<lambda>g. replicate (subspaces alg ! g)
                      (concat (map (\<lambda>h. replicate (subspaces alg ! h) (get stored' [o', i, g, h] + 0.4))
                                 [0..<n_subspaces alg])))
                           [0..<n_subspaces alg])))"
proof (rule conjI)
  let ?R = "rep_index (subspaces alg)"
  from inv have len: "length (subspaces alg) = n_subspaces alg"
    and sum: "sum_list (subspaces alg) = n_blades alg"
    by (simp_all add: algebra_inv_def)
  have lenR: "length ?R = n_blades alg" using sum by (simp add: length_rep_index)
  let ?w = "tabulate [co, ci, sum_list (subspaces alg)]
            (\<lambda>idx. get (tmap (\<lambda>x. x + 0.4) stored) (idx[2 := ?R ! (idx ! 2)]))"
  have w: "ScalarShell_kernel_width alg ci co stored = Inr ?w"
    by (rule ScalarShell_kernel_width_Inr[OF len st])
  have "map (\<lambda>b. get ?w [o', i, b]) [0..<n_blades alg] =
        concat (map (\<lambda>g. replicate (subspaces alg ! g) (get stored [o', i, g] + 0.4))
                  [0..<n_subspaces alg])"
    if oi: "o' < co" "i < ci" for o' i
  proof -
    have "map (\<lambda>b. get ?w [o', i, b]) [0..<length ?R] =
          map (\<lambda>b. get stored [o', i, ?R ! b] + 0.4) [0..<length ?R]"
      using ScalarShell_kernel_width_entry[OF len st w oi] lenR sum
      by (intro map_cong) simp_all
    also have "\<dots> = map (\<lambda>g. get stored [o', i, g] + 0.4) ?R"
      by (rule map_nth_fun)
    also have "\<dots> = concat (map (\<lambda>g. replicate (subspaces alg ! g) (get stored [o', i, g] + 0.4))
                  [0..<n_subspaces alg])"
      by (simp add: map_rep_index len)
    finally show ?thesis by (simp add: lenR)
  qed
  then show "\<exists>w. ScalarShell_kernel_width alg ci co stored = Inr w \<and>
              shape w = [co, ci, n_blades alg] \<and>
              (\<forall>o' i. o' < co \<and> i < ci \<longrightarrow>
                 map (\<lambda>b. get w [o', i, b]) [0..<n_blades alg] =
                 concat (map (\<lambda>g. replicate (subspaces alg ! g) (get stored [o', i, g] + 0.4))
                           [0..<n_subspaces alg]))"
    using w sum by (intro exI[of _ ?w]) simp
next
  let ?R = "rep_index (subspaces alg)"
  from inv have len: "length (subspaces alg) = n_subspaces alg"
    and sum: "sum_list (subspaces alg) = n_blades alg"
    by (simp_all add: algebra_inv_def)
  have lenR: "length ?R = n_blades alg" using sum by (simp add: length_rep_index)
  obtain w where w: "ComposedScalarShell_kernel_width alg ci co stored' = Inr w"
    and sh: "shape w = [co, ci, n_blades alg, n_blades alg]"
    using ComposedScalarShell_kernel_width_Inr[OF len st'] sum by simp
  have "map (\<lambda>a. map (\<lambda>b. get w [o', i, a, b]) [0..<n_blades alg]) [0..<n_blades alg] =
        concat (map (\<lambda>g. replicate (subspaces alg ! g)
             (concat (map (\<lambda>h. replicate (subspaces alg ! h) (get stored' [o', i, g, h] + 0.4))
                        [0..<n_subspaces alg])))
                  [0..<n_subspaces alg])"
    if oi: "o' < co" "i < ci" for o' i
  proof -
    let ?row = "\<lambda>g. concat (map (\<lambda>h. replicate (subspaces alg ! h) (get stored' [o', i, g, h] + 0.4))
                        [0..<n_subspaces alg])"
    have row: "map (\<lambda>b. get w [o', i, a, b]) [0..<length ?R] = ?row (?R ! a)"
      if a: "a < n_blades alg" for a
    proof -
      have "map (\<lambda>b. get w [o', i, a, b]) [0..<length ?R] =
            map (\<lambda>b. get stored' [o', i, ?R ! a, ?R ! b] + 0.4) [0..<length ?R]"
        using ComposedScalarShell_kernel_width_entry[OF len st' w oi] a lenR sum
        by (intro map_cong) simp_all
      also have "\<dots> = map (\<lambda>h. get stored' [o', i, ?R ! a, h] + 0.4) ?R"
        by (rule map_nth_fun)
      also have "\<dots> = ?row (?R ! a)"
        by (simp add: map_rep_index len)
      finally show ?thesis .
    qed
    have "map (\<lambda>a. map (\<lambda>b. get w [o', i, a, b]) [0..<length ?R]) [0..<length ?R] =
          map (\<lambda>a. ?row (?R ! a)) [0..<length ?R]"
      using row lenR by (intro map_cong) simp_all
    also have "\<dots> = map ?row ?R"
      by (rule map_nth_fun)
    also have "\<dots> = concat (map (\<lambda>g. replicate (subspaces alg ! g) (?row g)) [0..<n_subspaces alg])"
      by (simp add: map_rep_index len)
    finally show ?thesis by (simp add: lenR)
  qed
  then show "\<exists>w. ComposedScalarShell_kernel_width alg ci co stored' = Inr w \<and>
              shape w = [co, ci, n_blades alg, n_blades alg] \<and>
              (\<forall>o' i. o' < co \<and> i < ci \<longrightarrow>
                 map (\<lambda>a. map (\<lambda>b. get w [o', i, a, b]) [0..<n_blades alg]) [0..<n_blades alg] =
                 concat (map (\<lambda>g. replicate (subspaces alg ! g)
                      (concat (map (\<lambda>h. replicate (subspaces alg ! h) (get stored' [o', i, g, h] + 0.4))
                                 [0..<n_subspaces alg])))
                           [0..<n_subspaces alg]))"
    using w sh by blast
qed

theorem width_broadcast_witness:
  "(\<exists>w. ScalarShell_kernel_width Cl2 1 1 \<lparr>shape = [1, 1, 3], data = [0, 1 / 10, 1 / 20]\<rparr> = Inr w \<and>
        shape w = [1, 1, 4] \<and>
        map (\<lambda>b. get w [0, 0, b]) [0..<4] = [2 / 5, 1 / 2, 1 / 2, 9 / 20]) \<and>
   (\<exists>w. ComposedScalarShell_kernel_width Cl2 1 1
          \<lparr>shape = [1, 1, 3, 3], data = [0, 1 / 10, 1 / 20, 0, 0, 0, 0, 0, 1 / 10]\<rparr> = Inr w \<and>
        shape w = [1, 1, 4, 4] \<and>
        map (\<lambda>a. map (\<lambda>b. get w [0, 0, a, b]) [0..<4]) [0..<4] =
          [[2 / 5, 1 / 2, 1 / 2, 9 / 20],
           [2 / 5, 2 / 5, 2 / 5, 2 / 5],
           [2 / 5, 2 / 5, 2 / 5, 2 / 5],
           [2 / 5, 2 / 5, 2 / 5, 1 / 2]])"
proof -
  let ?p = "\<lparr>shape = [1, 1, 3], data = [0, 1 / 10, 1 / 20 :: real]\<rparr>"
  let ?p' = "\<lparr>shape = [1, 1, 3, 3], data = [0, 1 / 10, 1 / 20, 0, 0, 0, 0, 0, 1 / 10 :: real]\<rparr>"
  have inv: "algebra_inv Cl2" by (simp add: algebra_inv_def Cl2_def)
  have n: "n_subspaces Cl2 = 3" "n_blades Cl2 = 4" "subspaces Cl2 = [1, 2, 1]"
    by (simp_all add: Cl2_def)
  have u3: "[0..<3] = [0, 1, 2]" by (simp add: upt_rec)
  from width_broadcast[OF inv, of ?p 1 1 ?p', unfolded n] obtain w w' where
    w: "ScalarShell_kernel_width Cl2 1 1 ?p = Inr w" "shape w = [1, 1, 4]"
    and r: "\<And>o' i. o' < 1 \<and> i < 1 \<Longrightarrow> map (\<lambda>b. get w [o', i, b]) [0..<4] =
                 concat (map (\<lambda>g. replicate ([1, 2, 1] ! g) (get ?p [o', i, g] + 0.4)) [0..<3])"
    and w': "ComposedScalarShell_kernel_width Cl2 1 1 ?p' = Inr w'" "shape w' = [1, 1, 4, 4]"
    and r': "\<And>o' i. o' < 1 \<and> i < 1 \<Longrightarrow>
                 map (\<lambda>a. map (\<lambda>b. get w' [o', i, a, b]) [0..<4]) [0..<4] =
                 concat (map (\<lambda>g. replicate ([1, 2, 1] ! g)
                      (concat (map (\<lambda>h. replicate ([1, 2, 1] ! h) (get ?p' [o', i, g, h] + 0.4))
                                 [0..<3])))
                           [0..<3])"
    by auto
  have "map (\<lambda>b. get w [0, 0, b]) [0..<4] = [2 / 5, 1 / 2, 1 / 2, 9 / 20]"
    unfolding r[of 0 0, simplified] u3 by (simp add: get_def numeral_2_eq_2)
  moreover have "map (\<lambda>a. map (\<lambda>b. get w' [0, 0, a, b]) [0..<4]) [0..<4] =
          [[2 / 5, 1 / 2, 1 / 2, 9 / 20],
           [2 / 5, 2 / 5, 2 / 5, 2 / 5],
           [2 / 5, 2 / 5, 2 / 5, 2 / 5],
           [2 / 5, 2 / 5, 2 / 5, 1 / 2]]"
    unfolding r'[of 0 0, simplified] u3 by (simp add: get_def numeral_2_eq_2)
  ultimately show ?thesis using w w' by simp
qed

text \<open>
  C6 (width positivity floor). As stated the claim fails: the draw 0 lies in \<open>[0, 0.2)\<close>,
  and the width it gives is 0.4 itself, not more.
\<close>

theorem width_floor_not_strict:
  "uniform_draw 0.2 \<lparr>shape = [1, 1, 3], data = [0, 1 / 10, 1 / 20]\<rparr> \<and>
   ScalarShell_kernel_width Cl2 1 1 \<lparr>shape = [1, 1, 3], data = [0, 1 / 10, 1 / 20]\<rparr>
     = Inr \<lparr>shape = [1, 1, 4], data = [0.4, 1 / 2, 1 / 2, 9 / 20]\<rparr> \<and>
   \<not> list_all (\<lambda>x. 0.4 < x) (data \<lparr>shape = [1, 1, 4], data = [0.4, 1 / 2, 1 / 2, 9 / 20 :: real]\<rparr>)"
proof (intro conjI)
  show "uniform_draw 0.2 \<lparr>shape = [1, 1, 3], data = [0, 1 / 10, 1 / 20]\<rparr>"
    by (simp add: uniform_draw_def wf_tensor_def)
  show "ScalarShell_kernel_width Cl2 1 1 \<lparr>shape = [1, 1, 3], data = [0, 1 / 10, 1 / 20]\<rparr>
     = Inr \<lparr>shape = [1, 1, 4], data = [0.4, 1 / 2, 1 / 2, 9 / 20]\<rparr>"
    by code_simp
  show "\<not> list_all (\<lambda>x. 0.4 < x) (data \<lparr>shape = [1, 1, 4], data = [0.4, 1 / 2, 1 / 2, 9 / 20 :: real]\<rparr>)"
    by simp
qed

text \<open>
  C6, amended. Immediately after initialization, when every entry of the stored parameter
  is a draw in \<open>[0, 0.2)\<close>, every entry of the width of \<^verbatim>\<open>ScalarShell\<close> and of
  \<^verbatim>\<open>ComposedScalarShell\<close> is at least 0.4, after the repetition along the grades and in
  the array handed to the shell function.
\<close>

theorem width_floor:
  assumes inv: "algebra_inv alg"
    and st: "shape stored = [co, ci, n_subspaces alg]" and u: "uniform_draw 0.2 stored"
    and st': "shape stored' = [co, ci, n_subspaces alg, n_subspaces alg]"
    and u': "uniform_draw 0.2 stored'"
  shows "(\<exists>w w'. ScalarShell_kernel_width alg ci co stored = Inr w \<and>
              reshape_infer w 1 (2 ^ dim_a alg) = Inr w' \<and>
              list_all (\<lambda>x. 0.4 \<le> x) (data w) \<and> list_all (\<lambda>x. 0.4 \<le> x) (data w')) \<and>
         (\<exists>w w'. ComposedScalarShell_kernel_width alg ci co stored' = Inr w \<and>
              reshape w (1 # shape w) = Inr w' \<and>
              list_all (\<lambda>x. 0.4 \<le> x) (data w) \<and> list_all (\<lambda>x. 0.4 \<le> x) (data w'))"
proof (rule conjI)
  from inv have len: "length (subspaces alg) = n_subspaces alg"
    and sum: "sum_list (subspaces alg) = 2 ^ dim_a alg"
    by (simp_all add: algebra_inv_def)
  from ScalarShell_kernel_width_floor[OF len st u] obtain w where
    w: "ScalarShell_kernel_width alg ci co stored = Inr w"
    and sh: "shape w = [co, ci, 2 ^ dim_a alg]" and all: "list_all (\<lambda>x. 0.4 \<le> x) (data w)"
    using sum by auto
  have "reshape_infer w 1 (2 ^ dim_a alg) = Inr (w\<lparr>shape := [1, co * ci, 2 ^ dim_a alg]\<rparr>)"
    using sh by (simp add: reshape_infer_def reshape_def tsize_def)
  then show "\<exists>w w'. ScalarShell_kernel_width alg ci co stored = Inr w \<and>
              reshape_infer w 1 (2 ^ dim_a alg) = Inr w' \<and>
              list_all (\<lambda>x. 0.4 \<le> x) (data w) \<and> list_all (\<lambda>x. 0.4 \<le> x) (data w')"
    using w all by (intro exI[of _ w] exI[of _ "w\<lparr>shape := [1, co * ci, 2 ^ dim_a alg]\<rparr>"]) simp
next
  from inv have len: "length (subspaces alg) = n_subspaces alg"
    by (simp add: algebra_inv_def)
  from ComposedScalarShell_kernel_width_floor[OF len st' u'] obtain w where
    w: "ComposedScalarShell_kernel_width alg ci co stored' = Inr w"
    and all: "list_all (\<lambda>x. 0.4 \<le> x) (data w)"
    by auto
  have "reshape w (1 # shape w) = Inr (w\<lparr>shape := 1 # shape w\<rparr>)"
    by (simp add: reshape_def tsize_def)
  then show "\<exists>w w'. ComposedScalarShell_kernel_width alg ci co stored' = Inr w \<and>
              reshape w (1 # shape w) = Inr w' \<and>
              list_all (\<lambda>x. 0.4 \<le> x) (data w) \<and> list_all (\<lambda>x. 0.4 \<le> x) (data w')"
    using w all by (intro exI[of _ w] exI[of _ "w\<lparr>shape := 1 # shape w\<rparr>"]) simp
qed

theorem width_floor_witness:
  "(\<exists>w w'. ScalarShell_kernel_width Cl2 1 1 \<lparr>shape = [1, 1, 3], data = [0, 1 / 10, 1 / 20]\<rparr> = Inr w \<and>
         reshape_infer w 1 (2 ^ dim_a Cl2) = Inr w' \<and>
         list_all (\<lambda>x. 0.4 \<le> x) (data w) \<and> list_all (\<lambda>x. 0.4 \<le> x) (data w')) \<and>
   (\<exists>w w'. ComposedScalarShell_kernel_width Cl2 1 1
           \<lparr>shape = [1, 1, 3, 3], data = [0, 1 / 10, 1 / 20, 0, 0, 0, 0, 0, 1 / 10]\<rparr> = Inr w \<and>
         reshape w (1 # shape w) = Inr w' \<and>
         list_all (\<lambda>x. 0.4 \<le> x) (data w) \<and> list_all (\<lambda>x. 0.4 \<le> x) (data w'))"
proof -
  have inv: "algebra_inv Cl2" by (simp add: algebra_inv_def Cl2_def)
  show ?thesis
    by (rule width_floor[OF inv])
       (simp_all add: Cl2_def uniform_draw_def wf_tensor_def)
qed

end
